theory Spec2Isabelle
  imports "HOL-Library.Log_Nat"
begin

section \<open>The SumGame engine of \<open>src/App.tsx\<close>\<close>

text \<open>
  The React component \<open>App\<close> keeps the whole round in \<open>useState\<close> cells and changes
  them from four kinds of callbacks: the click handlers, the one-second interval of the
  timer effect, the 300ms timeout scheduled after a match in classic mode, and the
  effect that raises the best score. Each callback runs to completion before the next
  one starts, so it is embedded as a function from the state before to the state after.

  The numbers the engine stores (score, target, time left, block values) are small
  integers, on which the arithmetic of JavaScript is exact: they are modelled as \<open>int\<close>.
  The numbers \<open>Math.random()\<close> returns and their products are IEEE 754 doubles and are
  modelled as such. A \<open>TypeError\<close> raised by reading a property of \<open>undefined\<close> is
  \<open>Inl TypeError\<close>.
  Sound, confetti and rendering do not touch the state and are left out.
\<close>

subsection \<open>Constants\<close>

definition GRID_COLS :: nat where "GRID_COLS = 6"
definition GRID_ROWS :: nat where "GRID_ROWS = 10"
definition INITIAL_ROWS :: nat where "INITIAL_ROWS = 4"
definition TARGET_MIN :: int where "TARGET_MIN = 10"
definition TARGET_MAX :: int where "TARGET_MAX = 30"
definition TIME_MODE_SECONDS :: int where "TIME_MODE_SECONDS = 10"

subsection \<open>Data\<close>

datatype GameMode = Classic | Time

datatype GameState = Menu | Playing | Gameover

datatype error = TypeError

text \<open>\<open>interface BlockData { id; value; isNew? }\<close>; every block is built with \<open>isNew: true\<close>.\<close>

record BlockData =
  blockId :: string
  blockValue :: int
  isNew :: bool

type_synonym cell = "BlockData option"
type_synonym board = "cell list list"
type_synonym coord = "nat \<times> nat"

subsection \<open>Doubles\<close>

text \<open>
  A nonnegative double, written as \<open>significand / 2 ^ scale\<close>. The doubles in \<open>[0, 1)\<close>
  are exactly the numbers of this form with a significand below \<open>2 ^ 53\<close> (53 bits), a
  scale of at most 1074 (the exponent of the smallest subnormal) and a significand below
  \<open>2 ^ scale\<close>.
\<close>

record double =
  significand :: int
  scale :: nat

definition isDouble :: "double \<Rightarrow> bool" where
  "isDouble d = (0 \<le> significand d \<and> significand d < 2 ^ 53 \<and> scale d \<le> 1074)"

definition belowOne :: "double \<Rightarrow> bool" where
  "belowOne d = (significand d < 2 ^ scale d)"

text \<open>
  Rounding an integer to 53 significant bits, to nearest and ties to even, the rounding
  of every IEEE 754 operation in JavaScript: an integer of more than 53 bits loses its
  low bits, and is rounded up when they are more than half a unit of the last place kept,
  or exactly half of it with an odd last place.
\<close>

definition roundSignificand :: "int \<Rightarrow> int" where
  "roundSignificand M =
     (if M < 2 ^ 53 then M
      else (let sh = nat (bitlen M - 53);
                q = M div 2 ^ sh;
                r = M mod 2 ^ sh;
                q' = (if 2 * r > 2 ^ sh \<or> (2 * r = 2 ^ sh \<and> odd q) then q + 1 else q)
            in q' * 2 ^ sh))"

text \<open>
  \<open>x * n\<close> for a double \<open>x\<close> and a small positive integer \<open>n\<close>: the exact product
  \<open>significand * n / 2 ^ scale\<close> rounded to a double. With a scale of at most 1074 the
  exact product is a multiple of the smallest subnormal, so rounding it is rounding its
  numerator to 53 bits. (The product of a double below 1 with 9 or 21 cannot overflow.)
\<close>

definition multiply :: "double \<Rightarrow> int \<Rightarrow> double" where
  "multiply x n = \<lparr>significand = roundSignificand (significand x * n), scale = scale x\<rparr>"

text \<open>\<open>Math.floor(x)\<close> of a nonnegative double.\<close>

definition Math_floor :: "double \<Rightarrow> int" where
  "Math_floor x = significand x div 2 ^ scale x"

text \<open>
  The random source. \<open>random R i\<close> is the double the \<open>i\<close>-th call of \<open>Math.random()\<close>
  returns; \<open>toId R\<close> stands for \<open>x.toString(36).substr(2, 9)\<close>, a library function of
  the drawn number that the engine never inspects.
\<close>

record source =
  random :: "nat \<Rightarrow> double"
  toId :: "double \<Rightarrow> string"

text \<open>
  The \<open>useState\<close> cells of \<open>App\<close> that the engine reads or writes, with two pieces of
  the runtime made explicit: \<open>drawn\<close> counts the calls of \<open>Math.random()\<close> made so far, and
  \<open>timeouts\<close> lists the pending \<open>setTimeout(() => addRow(), 300)\<close> callbacks, oldest
  first, each with the \<open>mode\<close> its \<open>addRow\<close> closure captured.
\<close>

record app =
  gameState :: GameState
  mode :: GameMode
  grid :: board
  target :: int
  selected :: "coord list"
  score :: int
  timeLeft :: int
  highScore :: int
  drawn :: nat
  timeouts :: "GameMode list"

definition initialState :: app where
  "initialState =
     \<lparr>gameState = Menu, mode = Classic, grid = [], target = 0, selected = [], score = 0,
      timeLeft = TIME_MODE_SECONDS, highScore = 0, drawn = 0, timeouts = []\<rparr>"

subsection \<open>Initialization\<close>

text \<open>\<open>Math.floor(Math.random() * (TARGET_MAX - TARGET_MIN + 1)) + TARGET_MIN\<close>;
  the result comes with the number of draws made afterwards.\<close>

definition generateTarget :: "source \<Rightarrow> nat \<Rightarrow> int \<times> nat" where
  "generateTarget R i =
     (Math_floor (multiply (random R i) (TARGET_MAX - TARGET_MIN + 1)) + TARGET_MIN, Suc i)"

text \<open>The body of the \<open>for\<close> loop of \<open>generateRow\<close>, run \<open>n\<close> more times: each round draws
  one number for the id and one for the value and pushes the block.\<close>

fun pushBlocks :: "source \<Rightarrow> nat \<Rightarrow> nat \<Rightarrow> cell list \<times> nat" where
  "pushBlocks R 0 i = ([], i)"
| "pushBlocks R (Suc n) i =
     (let block = \<lparr>blockId = toId R (random R i),
                   blockValue = Math_floor (multiply (random R (Suc i)) 9) + 1,
                   isNew = True\<rparr>;
          (rest, j) = pushBlocks R n (Suc (Suc i))
      in (Some block # rest, j))"

definition generateRow :: "source \<Rightarrow> nat \<Rightarrow> cell list \<times> nat" where
  "generateRow R i = pushBlocks R GRID_COLS i"

text \<open>The loop of \<open>startGame\<close> that fills the bottom rows, top to bottom.\<close>

fun fillRows :: "source \<Rightarrow> nat \<Rightarrow> nat \<Rightarrow> board \<times> nat" where
  "fillRows R 0 i = ([], i)"
| "fillRows R (Suc n) i =
     (let (row, j) = generateRow R i;
          (rest, k) = fillRows R n j
      in (row # rest, k))"

definition startGame :: "source \<Rightarrow> GameMode \<Rightarrow> app \<Rightarrow> app" where
  "startGame R selectedMode s =
     (let emptyRows = replicate (GRID_ROWS - INITIAL_ROWS) (replicate GRID_COLS None);
          (rows, i) = fillRows R INITIAL_ROWS (drawn s);
          (t, j) = generateTarget R i
      in s\<lparr>grid := emptyRows @ rows, target := t, score := 0, mode := selectedMode,
            gameState := Playing, selected := [], timeLeft := TIME_MODE_SECONDS,
            drawn := j\<rparr>)"

subsection \<open>Row advance\<close>

text \<open>\<open>currentGrid[0].some(cell => cell !== null)\<close>; on a grid without rows
  \<open>currentGrid[0]\<close> is \<open>undefined\<close> and the call throws.\<close>

definition checkGameOver :: "board \<Rightarrow> error + bool" where
  "checkGameOver currentGrid =
     (case currentGrid of
        [] \<Rightarrow> Inl TypeError
      | row # _ \<Rightarrow> Inr (list_ex (\<lambda>cell. cell \<noteq> None) row))"

text \<open>
  \<open>addRow\<close>, with the \<open>mode\<close> of its closure as the argument \<open>m\<close>. The updater passed to
  \<open>setGrid\<close> builds the shifted grid (drawing the new row) before it checks the top row of
  \<open>prev\<close>; the unused \<open>newGrid\<close> of the source is a copy of \<open>prev\<close> and is not modelled.
\<close>

definition addRow :: "source \<Rightarrow> GameMode \<Rightarrow> app \<Rightarrow> error + app" where
  "addRow R m s =
     (let prev = grid s;
          (row, i) = generateRow R (drawn s);
          shiftedGrid = drop 1 prev @ [row]
      in case checkGameOver prev of
           Inl e \<Rightarrow> Inl e
         | Inr over \<Rightarrow>
             (let s1 = (if over then s\<lparr>gameState := Gameover, drawn := i\<rparr>
                        else s\<lparr>grid := shiftedGrid, drawn := i\<rparr>)
              in Inr (if m = Time then s1\<lparr>timeLeft := TIME_MODE_SECONDS\<rparr> else s1)))"

subsection \<open>Game logic\<close>

text \<open>\<open>grid[r][c]\<close>: a \<open>TypeError\<close> when row \<open>r\<close> does not exist, \<open>undefined\<close> when only the
  column does not. \<open>undefined\<close> and \<open>null\<close> are both \<open>None\<close>: the source tests the cell
  with \<open>!block\<close> and \<open>?.\<close> only, which do not tell them apart.\<close>

definition cellAt :: "board \<Rightarrow> nat \<Rightarrow> nat \<Rightarrow> error + cell" where
  "cellAt g r c =
     (if r < length g then Inr (if c < length (g ! r) then g ! r ! c else None)
      else Inl TypeError)"

text \<open>\<open>cell?.value || 0\<close>\<close>

definition valueOrZero :: "cell \<Rightarrow> int" where
  "valueOrZero cell =
     (case cell of None \<Rightarrow> 0 | Some b \<Rightarrow> (if blockValue b = 0 then 0 else blockValue b))"

text \<open>\<open>sel.reduce((sum, s) => sum + (grid[s.r][s.c]?.value || 0), acc)\<close>\<close>

fun reduceSum :: "board \<Rightarrow> int \<Rightarrow> coord list \<Rightarrow> error + int" where
  "reduceSum g acc [] = Inr acc"
| "reduceSum g acc ((r, c) # rest) =
     (case cellAt g r c of
        Inl e \<Rightarrow> Inl e
      | Inr cell \<Rightarrow> reduceSum g (acc + valueOrZero cell) rest)"

definition currentSum :: "board \<Rightarrow> coord list \<Rightarrow> error + int" where
  "currentSum g sel = reduceSum g 0 sel"

text \<open>The toggle at the head of \<open>handleBlockClick\<close>.\<close>

definition toggle :: "coord list \<Rightarrow> nat \<Rightarrow> nat \<Rightarrow> coord list" where
  "toggle sel r c =
     (let isAlreadySelected = list_ex (\<lambda>s. fst s = r \<and> snd s = c) sel
      in if isAlreadySelected then filter (\<lambda>s. \<not> (fst s = r \<and> snd s = c)) sel
         else sel @ [(r, c)])"

text \<open>\<open>grid.map((row, ri) => row.map((cell, ci) => newSelected.some(...) ? null : cell))\<close>\<close>

definition removeBlocks :: "board \<Rightarrow> coord list \<Rightarrow> board" where
  "removeBlocks g newSelected =
     map (\<lambda>(ri, row).
            map (\<lambda>(ci, cell).
                   if list_ex (\<lambda>s. fst s = ri \<and> snd s = ci) newSelected then None else cell)
                (enumerate 0 row))
         (enumerate 0 g)"

definition handleBlockClick :: "source \<Rightarrow> nat \<Rightarrow> nat \<Rightarrow> app \<Rightarrow> error + app" where
  "handleBlockClick R r c s =
     (if gameState s \<noteq> Playing then Inr s
      else case cellAt (grid s) r c of
        Inl e \<Rightarrow> Inl e
      | Inr None \<Rightarrow> Inr s
      | Inr (Some block) \<Rightarrow>
          (let newSelected = toggle (selected s) r c
           in case currentSum (grid s) newSelected of
                Inl e \<Rightarrow> Inl e
              | Inr csum \<Rightarrow>
                  if csum = target s then
                    (let points = int (length newSelected) * 10;
                         nextGrid = removeBlocks (grid s) newSelected;
                         (t, i) = generateTarget R (drawn s);
                         s1 = s\<lparr>score := score s + points, grid := nextGrid,
                                selected := [], target := t, drawn := i\<rparr>
                     in Inr (if mode s = Classic
                             then s1\<lparr>timeouts := timeouts s @ [mode s]\<rparr>
                             else s1\<lparr>timeLeft := TIME_MODE_SECONDS\<rparr>))
                  else if csum > target s then Inr (s\<lparr>selected := []\<rparr>)
                  else Inr (s\<lparr>selected := newSelected\<rparr>)))"

subsection \<open>Timers and effects\<close>

text \<open>
  One firing of the interval of the timer effect. The effect installs the interval only
  while \<open>gameState === 'playing' && mode === 'time'\<close> and clears it otherwise, so outside
  that condition there is nothing to fire. The \<open>addRow\<close> it calls is the current one (the
  effect depends on it), whose \<open>mode\<close> is the current mode.
\<close>

definition tick :: "source \<Rightarrow> app \<Rightarrow> error + app" where
  "tick R s =
     (if gameState s = Playing \<and> mode s = Time then
        (if timeLeft s \<le> 1 then
           (case addRow R (mode s) s of
              Inl e \<Rightarrow> Inl e
            | Inr s' \<Rightarrow> Inr (s'\<lparr>timeLeft := TIME_MODE_SECONDS\<rparr>))
         else Inr (s\<lparr>timeLeft := timeLeft s - 1\<rparr>))
      else Inr s)"

text \<open>The oldest pending timeout fires: it calls the \<open>addRow\<close> it captured. Nothing in the
  source clears a timeout.\<close>

definition fireTimeout :: "source \<Rightarrow> app \<Rightarrow> error + app" where
  "fireTimeout R s =
     (case timeouts s of
        [] \<Rightarrow> Inr s
      | m # rest \<Rightarrow> addRow R m (s\<lparr>timeouts := rest\<rparr>))"

text \<open>\<open>useEffect(() => { if (score > highScore) setHighScore(score) }, [score, highScore])\<close>\<close>

definition highScoreEffect :: "app \<Rightarrow> app" where
  "highScoreEffect s = (if score s > highScore s then s\<lparr>highScore := score s\<rparr> else s)"

text \<open>
  The intents the component accepts. \<open>ReturnToMenu\<close> is \<open>setGameState('menu')\<close> and
  \<open>ClearSelection\<close> is \<open>setSelected([])\<close>, both written inline in the JSX. React runs the
  effects of a render before it handles the next event, so one transition is the
  callback followed by the best-score effect.
\<close>

datatype event =
  StartGame GameMode
| Click nat nat
| ClearSelection
| ReturnToMenu
| Tick
| Timeout

fun handle :: "source \<Rightarrow> event \<Rightarrow> app \<Rightarrow> error + app" where
  "handle R (StartGame m) s = Inr (startGame R m s)"
| "handle R (Click r c) s = handleBlockClick R r c s"
| "handle R ClearSelection s = Inr (s\<lparr>selected := []\<rparr>)"
| "handle R ReturnToMenu s = Inr (s\<lparr>gameState := Menu\<rparr>)"
| "handle R Tick s = tick R s"
| "handle R Timeout s = fireTimeout R s"

definition dispatch :: "source \<Rightarrow> event \<Rightarrow> app \<Rightarrow> error + app" where
  "dispatch R e s =
     (case handle R e s of Inl err \<Rightarrow> Inl err | Inr s' \<Rightarrow> Inr (highScoreEffect s'))"

text \<open>A sequence of intents, stopping at the first exception.\<close>

fun run :: "source \<Rightarrow> event list \<Rightarrow> app \<Rightarrow> error + app" where
  "run R [] s = Inr s"
| "run R (e # es) s =
     (case dispatch R e s of Inl err \<Rightarrow> Inl err | Inr s' \<Rightarrow> run R es s')"

text \<open>The states the component can be in: those a sequence of intents leads to from the
  initial render.\<close>

inductive reachable :: "source \<Rightarrow> app \<Rightarrow> bool" for R :: source where
  reachable_init: "reachable R initialState"
| reachable_step: "reachable R s \<Longrightarrow> dispatch R e s = Inr s' \<Longrightarrow> reachable R s'"

subsection \<open>Predicates used in the statements\<close>

text \<open>The contract of \<open>Math.random()\<close>: every draw is a double in \<open>[0, 1)\<close>.\<close>

definition unitDraws :: "source \<Rightarrow> bool" where
  "unitDraws R = (\<forall>i. isDouble (random R i) \<and> belowOne (random R i))"

text \<open>A board has \<open>GRID_ROWS\<close> rows of \<open>GRID_COLS\<close> cells.\<close>

definition boardShaped :: "board \<Rightarrow> bool" where
  "boardShaped g = (length g = GRID_ROWS \<and> list_all (\<lambda>row. length row = GRID_COLS) g)"

definition onBoard :: "board \<Rightarrow> coord \<Rightarrow> bool" where
  "onBoard g p = (fst p < length g \<and> snd p < length (g ! fst p))"

text \<open>The cell at \<open>(r, c)\<close> holds a block.\<close>

definition occupiedAt :: "board \<Rightarrow> nat \<Rightarrow> nat \<Rightarrow> bool" where
  "occupiedAt g r c = (case cellAt g r c of Inr (Some b) \<Rightarrow> True | _ \<Rightarrow> False)"

definition cellOccupied :: "nat \<Rightarrow> nat \<Rightarrow> app \<Rightarrow> bool" where
  "cellOccupied r c s = occupiedAt (grid s) r c"

text \<open>Every selected coordinate refers to an occupied cell of the current board.\<close>

definition selectionOccupied :: "app \<Rightarrow> bool" where
  "selectionOccupied s = list_all (\<lambda>p. occupiedAt (grid s) (fst p) (snd p)) (selected s)"

text \<open>
  What holds of the state whatever happened before: before the first round the grid is
  the empty array of the initial render, the phase is \<open>menu\<close> and no timeout is pending;
  from the first \<open>startGame\<close> on the grid is a board. The selection has no duplicates
  and lies on the grid.
\<close>

definition wellFormed :: "app \<Rightarrow> bool" where
  "wellFormed s =
     ((grid s = [] \<and> gameState s = Menu \<and> timeouts s = [] \<or> boardShaped (grid s))
      \<and> distinct (selected s)
      \<and> list_all (onBoard (grid s)) (selected s))"

text \<open>The states a sequence of intents passes through, the first one included.\<close>

fun history :: "source \<Rightarrow> event list \<Rightarrow> app \<Rightarrow> app list" where
  "history R [] s = [s]"
| "history R (e # es) s =
     s # (case dispatch R e s of Inl err \<Rightarrow> [] | Inr s' \<Rightarrow> history R es s')"

subsection \<open>Concrete inputs\<close>

text \<open>A random source whose every draw is the same double.\<close>

definition always :: "double \<Rightarrow> source" where
  "always x = \<lparr>random = (\<lambda>i. x), toId = (\<lambda>y. ''b'')\<rparr>"

text \<open>Every draw one half: every block is a 5, every target 20.\<close>

definition halves :: source where
  "halves = always \<lparr>significand = 1, scale = 1\<rparr>"

text \<open>
  The doubles \<open>0.4444444444444444\<close> and \<open>0.5714285714285714\<close>. Their exact products
  with 9 and with 21 lie just below 4 and just below 12 and round to \<open>4\<close> and to \<open>12\<close>.
\<close>

definition fourNinths :: double where
  "fourNinths = \<lparr>significand = 2001599834386887, scale = 52\<rparr>"

definition fourSevenths :: double where
  "fourSevenths = \<lparr>significand = 2573485501354569, scale = 52\<rparr>"

text \<open>The board of the scenarios: a 4 at \<open>(9, 0)\<close>, a 6 at \<open>(9, 1)\<close>, nothing else.\<close>

definition scenarioBoard :: board where
  "scenarioBoard =
     replicate 9 (replicate 6 None) @
     [[Some \<lparr>blockId = ''a'', blockValue = 4, isNew = True\<rparr>,
       Some \<lparr>blockId = ''b'', blockValue = 6, isNew = True\<rparr>,
       None, None, None, None]]"

definition scenario :: "GameMode \<Rightarrow> int \<Rightarrow> coord list \<Rightarrow> app" where
  "scenario m t sel =
     \<lparr>gameState = Playing, mode = m, grid = scenarioBoard, target = t, selected = sel,
      score = 0, timeLeft = TIME_MODE_SECONDS, highScore = 0, drawn = 49, timeouts = []\<rparr>"

section \<open>Generated values\<close>

lemma roundSignificand_bounds:
  assumes "0 \<le> M" "M < 2 ^ (53 + j)"
  shows "0 \<le> roundSignificand M \<and> 2 * roundSignificand M \<le> 2 * M + 2 ^ j"
proof (cases "M < 2 ^ 53")
  case True
  with assms(1) show ?thesis by (simp add: roundSignificand_def)
next
  case False
  define sh where "sh = nat (bitlen M - 53)"
  define P :: int where "P = 2 ^ sh"
  define q where "q = M div P"
  define r where "r = M mod P"
  have "M < 2 ^ nat (int (53 + j))"
    using assms(2) by (simp only: nat_int)
  then have "bitlen M \<le> int (53 + j)"
    by (subst bitlen_le_iff_power) (simp only: of_nat_0_le_iff simp_thms)
  then have "sh \<le> j" by (simp add: sh_def)
  then have Pj: "P \<le> 2 ^ j" by (simp add: P_def)
  have P0: "0 < P" by (simp add: P_def)
  have M: "M = q * P + r" by (simp add: q_def r_def)
  have r: "0 \<le> r" "r < P" using P0 by (simp_all add: r_def)
  have q: "0 \<le> q" using assms(1) P0 by (simp add: q_def pos_imp_zdiv_nonneg_iff)
  have qP: "0 \<le> q * P" using q P0 by simp
  have eq: "roundSignificand M
              = (if 2 * r > P \<or> (2 * r = P \<and> odd q) then q + 1 else q) * P"
    using False by (simp add: roundSignificand_def Let_def sh_def P_def q_def r_def)
  show ?thesis
  proof (cases "2 * r > P \<or> (2 * r = P \<and> odd q)")
    case True
    with eq have "roundSignificand M = (q + 1) * P" by (simp only: if_True)
    then have "roundSignificand M = q * P + P" by (simp add: algebra_simps)
    moreover from True have "P \<le> 2 * r" by auto
    ultimately show ?thesis using M r qP Pj P0 by linarith
  next
    case False
    with eq have "roundSignificand M = q * P" by (simp only: if_False)
    moreover have "(0::int) \<le> 2 ^ j" by simp
    ultimately show ?thesis using M r qP by linarith
  qed
qed

lemma int_div_less:
  fixes a P n :: int
  assumes "0 < P" "a < n * P"
  shows "a div P < n"
proof (rule ccontr)
  assume "\<not> a div P < n"
  then have "n * P \<le> (a div P) * P" using assms(1) by (simp add: mult_right_mono)
  moreover have "(a div P) * P + a mod P = a" by simp
  moreover have "0 \<le> a mod P" using assms(1) by simp
  ultimately show False using assms(2) by linarith
qed

text \<open>The floor of the product of a double in \<open>[0, 1)\<close> with 21 and with 9.\<close>

lemma floor_times_21:
  assumes "isDouble x" "belowOne x"
  shows "0 \<le> Math_floor (multiply x 21) \<and> Math_floor (multiply x 21) < 21"
proof -
  let ?m = "significand x" and ?k = "scale x"
  from assms have m: "0 \<le> ?m" "?m < 2 ^ 53" "?m + 1 \<le> 2 ^ ?k"
    by (simp_all add: isDouble_def belowOne_def)
  have "?m * 21 < 2 ^ (53 + 5)" using m(2) by simp
  from roundSignificand_bounds [OF _ this] m(1)
  have b: "0 \<le> roundSignificand (?m * 21)"
    "2 * roundSignificand (?m * 21) \<le> 2 * (?m * 21) + 2 ^ 5"
    by simp_all
  from b(2) m(3) have "roundSignificand (?m * 21) < 21 * 2 ^ ?k" by simp
  then have "roundSignificand (?m * 21) div 2 ^ ?k < 21"
    by (intro int_div_less) simp_all
  moreover have "0 \<le> roundSignificand (?m * 21) div 2 ^ ?k"
    using b(1) by (simp add: pos_imp_zdiv_nonneg_iff)
  ultimately show ?thesis by (simp add: Math_floor_def multiply_def)
qed

lemma floor_times_9:
  assumes "isDouble x" "belowOne x"
  shows "0 \<le> Math_floor (multiply x 9) \<and> Math_floor (multiply x 9) < 9"
proof -
  let ?m = "significand x" and ?k = "scale x"
  from assms have m: "0 \<le> ?m" "?m < 2 ^ 53" "?m + 1 \<le> 2 ^ ?k"
    by (simp_all add: isDouble_def belowOne_def)
  have "?m * 9 < 2 ^ (53 + 4)" using m(2) by simp
  from roundSignificand_bounds [OF _ this] m(1)
  have b: "0 \<le> roundSignificand (?m * 9)"
    "2 * roundSignificand (?m * 9) \<le> 2 * (?m * 9) + 2 ^ 4"
    by simp_all
  from b(2) m(3) have "roundSignificand (?m * 9) < 9 * 2 ^ ?k" by simp
  then have "roundSignificand (?m * 9) div 2 ^ ?k < 9"
    by (intro int_div_less) simp_all
  moreover have "0 \<le> roundSignificand (?m * 9) div 2 ^ ?k"
    using b(1) by (simp add: pos_imp_zdiv_nonneg_iff)
  ultimately show ?thesis by (simp add: Math_floor_def multiply_def)
qed

lemma generateTarget_range:
  assumes "unitDraws R"
  shows "10 \<le> fst (generateTarget R i) \<and> fst (generateTarget R i) \<le> 30"
proof -
  have u: "isDouble (random R i)" "belowOne (random R i)"
    using assms by (simp_all add: unitDraws_def)
  from floor_times_21 [OF u] show ?thesis
    by (simp add: generateTarget_def TARGET_MAX_def TARGET_MIN_def)
qed

lemma pushBlocks_length: "length (fst (pushBlocks R n i)) = n"
  by (induction n arbitrary: i) (simp_all add: Let_def case_prod_beta)

lemma pushBlocks_cells:
  assumes "unitDraws R" "cell \<in> set (fst (pushBlocks R n i))"
  shows "\<exists>b. cell = Some b \<and> 1 \<le> blockValue b \<and> blockValue b \<le> 9"
  using assms(2)
proof (induction n arbitrary: i)
  case 0
  then show ?case by simp
next
  case (Suc n)
  have u: "isDouble (random R (Suc i))" "belowOne (random R (Suc i))"
    using assms(1) by (simp_all add: unitDraws_def)
  from floor_times_9 [OF u]
  have v: "1 \<le> Math_floor (multiply (random R (Suc i)) 9) + 1
         \<and> Math_floor (multiply (random R (Suc i)) 9) + 1 \<le> 9"
    by simp
  from Suc.prems show ?case
    using v Suc.IH [of "Suc (Suc i)"]
    by (auto simp: Let_def case_prod_beta)
qed

lemma generateRow_length: "length (fst (generateRow R i)) = GRID_COLS"
  by (simp add: generateRow_def pushBlocks_length)

lemma always_unitDraws: "isDouble x \<Longrightarrow> belowOne x \<Longrightarrow> unitDraws (always x)"
  by (simp add: unitDraws_def always_def)

text \<open>
  C8. Whenever every draw of \<open>Math.random()\<close> is a double in \<open>[0, 1)\<close>, \<open>generateTarget\<close>
  returns an integer between 10 and 30, and \<open>generateRow\<close> returns exactly 6 cells, each
  holding a block whose value is an integer between 1 and 9; the products are the
  rounded products of doubles.
\<close>

theorem generated_values_in_range:
  assumes "unitDraws R"
  shows "10 \<le> fst (generateTarget R i) \<and> fst (generateTarget R i) \<le> 30
       \<and> length (fst (generateRow R j)) = 6
       \<and> (\<forall>cell \<in> set (fst (generateRow R j)).
             \<exists>b. cell = Some b \<and> 1 \<le> blockValue b \<and> blockValue b \<le> 9)"
proof -
  have l: "length (fst (generateRow R j)) = 6"
    by (simp add: generateRow_length GRID_COLS_def)
  have c: "\<forall>cell \<in> set (fst (generateRow R j)).
             \<exists>b. cell = Some b \<and> 1 \<le> blockValue b \<and> blockValue b \<le> 9"
    using pushBlocks_cells [OF assms] by (simp add: generateRow_def)
  from generateTarget_range [OF assms, of i] l c show ?thesis by blast
qed

theorem generated_values_in_range_witness:
  "unitDraws (always fourSevenths)
   \<and> fst (generateTarget (always fourSevenths) 0) = 22
   \<and> 10 \<le> fst (generateTarget (always fourSevenths) 0)
   \<and> fst (generateTarget (always fourSevenths) 0) \<le> 30
   \<and> length (fst (generateRow (always fourSevenths) 0)) = 6
   \<and> map (map_option blockValue) (fst (generateRow (always fourSevenths) 0))
       = [Some 6, Some 6, Some 6, Some 6, Some 6, Some 6]
   \<and> unitDraws (always fourNinths)
   \<and> fst (generateTarget (always fourNinths) 0) = 19
   \<and> length (fst (generateRow (always fourNinths) 0)) = 6
   \<and> map (map_option blockValue) (fst (generateRow (always fourNinths) 0))
       = [Some 5, Some 5, Some 5, Some 5, Some 5, Some 5]"
proof -
  have d: "isDouble fourSevenths" "belowOne fourSevenths" "isDouble fourNinths"
    "belowOne fourNinths"
    by (simp_all add: isDouble_def belowOne_def fourSevenths_def fourNinths_def)
  have u: "unitDraws (always fourSevenths)" "unitDraws (always fourNinths)"
    using d by (simp_all add: always_unitDraws)
  have t: "fst (generateTarget (always fourSevenths) 0) = 22"
    "fst (generateTarget (always fourNinths) 0) = 19"
    by code_simp+
  have r: "map (map_option blockValue) (fst (generateRow (always fourSevenths) 0))
             = [Some 6, Some 6, Some 6, Some 6, Some 6, Some 6]"
    "map (map_option blockValue) (fst (generateRow (always fourNinths) 0))
             = [Some 5, Some 5, Some 5, Some 5, Some 5, Some 5]"
    by code_simp+
  from u t r generated_values_in_range [OF u(1), of 0 0]
    generated_values_in_range [OF u(2), of 0 0]
  show ?thesis by blast
qed

section \<open>Row advance\<close>

lemma checkGameOver_nonempty:
  "g \<noteq> [] \<Longrightarrow> checkGameOver g = Inr (\<exists>cell \<in> set (hd g). cell \<noteq> None)"
  by (cases g) (simp_all add: checkGameOver_def list_ex_iff)

lemma addRow_over:
  assumes "grid s \<noteq> []" "\<exists>cell \<in> set (hd (grid s)). cell \<noteq> None"
  shows "\<exists>s'. addRow R m s = Inr s' \<and> gameState s' = Gameover \<and> grid s' = grid s
           \<and> selected s' = selected s \<and> score s' = score s \<and> highScore s' = highScore s
           \<and> timeouts s' = timeouts s \<and> mode s' = mode s
           \<and> timeLeft s' = (if m = Time then 10 else timeLeft s)"
  using assms
  by (simp add: addRow_def Let_def case_prod_beta checkGameOver_nonempty
      TIME_MODE_SECONDS_def)

lemma addRow_shift:
  assumes "grid s \<noteq> []" "\<not> (\<exists>cell \<in> set (hd (grid s)). cell \<noteq> None)"
  shows "\<exists>s'. addRow R m s = Inr s' \<and> gameState s' = gameState s
           \<and> grid s' = tl (grid s) @ [fst (generateRow R (drawn s))]
           \<and> selected s' = selected s \<and> score s' = score s \<and> highScore s' = highScore s
           \<and> timeouts s' = timeouts s \<and> mode s' = mode s
           \<and> timeLeft s' = (if m = Time then 10 else timeLeft s)"
  using assms
  by (simp add: addRow_def Let_def case_prod_beta checkGameOver_nonempty drop_Suc
      TIME_MODE_SECONDS_def)

lemma addRow_empty: "grid s = [] \<Longrightarrow> addRow R m s = Inl TypeError"
  by (simp add: addRow_def Let_def case_prod_beta checkGameOver_def)

text \<open>
  C1. On every board (a grid that has a row 0) and while the phase is \<open>playing\<close>, \<open>addRow\<close>
  returns, and either row 0 of the board before the call holds a block, the phase becomes
  \<open>gameover\<close> and the board is the one before the call, or row 0 is empty, the phase stays
  \<open>playing\<close> and the new board is the old one without its row 0 followed by one freshly
  generated row.
\<close>

theorem addRow_contract:
  assumes "grid s \<noteq> []" "gameState s = Playing"
  shows "\<exists>s'. addRow R m s = Inr s' \<and>
           (if \<exists>cell \<in> set (hd (grid s)). cell \<noteq> None
            then gameState s' = Gameover \<and> grid s' = grid s
            else gameState s' = Playing
               \<and> grid s' = tl (grid s) @ [fst (generateRow R (drawn s))])"
proof (cases "\<exists>cell \<in> set (hd (grid s)). cell \<noteq> None")
  case True
  with addRow_over [OF assms(1) True, of R m] show ?thesis by auto
next
  case False
  with addRow_shift [OF assms(1) False, of R m] assms(2) show ?thesis by auto
qed

theorem addRow_contract_witness:
  "grid (startGame halves Classic initialState) \<noteq> []
   \<and> gameState (startGame halves Classic initialState) = Playing
   \<and> (\<exists>s'. addRow halves Classic (startGame halves Classic initialState) = Inr s'
          \<and> gameState s' = Playing
          \<and> grid s' = tl (grid (startGame halves Classic initialState))
                       @ [fst (generateRow halves (drawn (startGame halves Classic initialState)))])
   \<and> grid (scenario Time 10 []\<lparr>grid := rev scenarioBoard\<rparr>) \<noteq> []
   \<and> gameState (scenario Time 10 []\<lparr>grid := rev scenarioBoard\<rparr>) = Playing
   \<and> (\<exists>s'. addRow halves Time (scenario Time 10 []\<lparr>grid := rev scenarioBoard\<rparr>) = Inr s'
          \<and> gameState s' = Gameover \<and> grid s' = rev scenarioBoard)"
proof -
  let ?s = "startGame halves Classic initialState"
  let ?t = "scenario Time 10 []\<lparr>grid := rev scenarioBoard\<rparr>"
  have a: "grid ?s \<noteq> []" by code_simp
  have b: "gameState ?s = Playing" by code_simp
  have c: "\<not> (\<exists>cell \<in> set (hd (grid ?s)). cell \<noteq> None)" by code_simp
  have a': "grid ?t \<noteq> []" by code_simp
  have b': "gameState ?t = Playing" by code_simp
  have c': "\<exists>cell \<in> set (hd (grid ?t)). cell \<noteq> None" by code_simp
  have g: "grid ?t = rev scenarioBoard" by simp
  from addRow_contract [OF a b, of halves Classic]
  have 1: "\<exists>s'. addRow halves Classic ?s = Inr s' \<and> gameState s' = Playing
          \<and> grid s' = tl (grid ?s) @ [fst (generateRow halves (drawn ?s))]"
    unfolding if_not_P [OF c] .
  from addRow_contract [OF a' b', of halves Time]
  have 2: "\<exists>s'. addRow halves Time ?t = Inr s' \<and> gameState s' = Gameover
          \<and> grid s' = rev scenarioBoard"
    unfolding if_P [OF c'] unfolding g .
  from a b 1 a' b' 2 show ?thesis by blast
qed

section \<open>Clicks\<close>

lemma list_ex_coord: "list_ex (\<lambda>s. fst s = r \<and> snd s = c) sel \<longleftrightarrow> (r, c) \<in> set sel"
  by (force simp: list_ex_iff)

lemma toggle_member: "(r, c) \<in> set sel \<Longrightarrow> toggle sel r c = filter (\<lambda>p. p \<noteq> (r, c)) sel"
  by (simp add: toggle_def list_ex_coord prod_eq_iff)

lemma toggle_fresh: "(r, c) \<notin> set sel \<Longrightarrow> toggle sel r c = sel @ [(r, c)]"
  by (simp add: toggle_def list_ex_coord)

lemma toggle_distinct: "distinct sel \<Longrightarrow> distinct (toggle sel r c)"
  by (cases "(r, c) \<in> set sel") (simp_all add: toggle_member toggle_fresh)

lemma toggle_set:
  "set (toggle sel r c) = (if (r, c) \<in> set sel then set sel - {(r, c)} else insert (r, c) (set sel))"
  by (cases "(r, c) \<in> set sel") (auto simp: toggle_member toggle_fresh)

lemma removeBlocks_length: "length (removeBlocks g sel) = length g"
  by (simp add: removeBlocks_def)

lemma removeBlocks_row_length:
  "ri < length g \<Longrightarrow> length (removeBlocks g sel ! ri) = length (g ! ri)"
  by (simp add: removeBlocks_def nth_enumerate_eq)

lemma removeBlocks_nth:
  "ri < length g \<Longrightarrow> ci < length (g ! ri) \<Longrightarrow>
   removeBlocks g sel ! ri ! ci = (if (ri, ci) \<in> set sel then None else g ! ri ! ci)"
  by (simp add: removeBlocks_def nth_enumerate_eq list_ex_coord)

lemma occupiedAt_iff:
  "occupiedAt g r c \<longleftrightarrow> (\<exists>b. cellAt g r c = Inr (Some b))"
  by (auto simp: occupiedAt_def split: sum.splits option.splits)

lemma occupiedAt_nth:
  "occupiedAt g r c \<longleftrightarrow> r < length g \<and> c < length (g ! r) \<and> g ! r ! c \<noteq> None"
  by (auto simp: occupiedAt_iff cellAt_def)

text \<open>The three outcomes of a click on an occupied cell while playing.\<close>

lemma match_outcome:
  assumes "gameState s = Playing" "occupiedAt (grid s) r c"
    and "currentSum (grid s) (toggle (selected s) r c) = Inr (target s)"
  shows "\<exists>s'. handleBlockClick R r c s = Inr s'
           \<and> score s' = score s + 10 * int (length (toggle (selected s) r c))
           \<and> grid s' = removeBlocks (grid s) (toggle (selected s) r c)
           \<and> selected s' = []
           \<and> target s' = fst (generateTarget R (drawn s))
           \<and> gameState s' = Playing \<and> highScore s' = highScore s \<and> mode s' = mode s
           \<and> timeouts s' = (if mode s = Classic then timeouts s @ [Classic] else timeouts s)
           \<and> timeLeft s' = (if mode s = Classic then timeLeft s else 10)"
proof -
  from assms(2) obtain b where b: "cellAt (grid s) r c = Inr (Some b)"
    by (auto simp: occupiedAt_iff)
  show ?thesis
    using assms(1,3) b
    by (simp add: handleBlockClick_def Let_def case_prod_beta TIME_MODE_SECONDS_def)
qed

lemma overshoot_outcome:
  assumes "gameState s = Playing" "occupiedAt (grid s) r c"
    and "currentSum (grid s) (toggle (selected s) r c) = Inr n" "target s < n"
  shows "handleBlockClick R r c s = Inr (s\<lparr>selected := []\<rparr>)"
proof -
  from assms(2) obtain b where b: "cellAt (grid s) r c = Inr (Some b)"
    by (auto simp: occupiedAt_iff)
  show ?thesis
    using assms(1,3,4) b by (simp add: handleBlockClick_def Let_def)
qed

lemma pending_outcome:
  assumes "gameState s = Playing" "occupiedAt (grid s) r c"
    and "currentSum (grid s) (toggle (selected s) r c) = Inr n" "n < target s"
  shows "handleBlockClick R r c s = Inr (s\<lparr>selected := toggle (selected s) r c\<rparr>)"
proof -
  from assms(2) obtain b where b: "cellAt (grid s) r c = Inr (Some b)"
    by (auto simp: occupiedAt_iff)
  show ?thesis
    using assms(1,3,4) b by (simp add: handleBlockClick_def Let_def)
qed

text \<open>Every way \<open>handleBlockClick\<close> returns.\<close>

lemma click_cases:
  assumes "handleBlockClick R r c s = Inr s'"
  shows "s' = s
       \<or> s' = s\<lparr>selected := []\<rparr>
       \<or> (s' = s\<lparr>selected := toggle (selected s) r c\<rparr> \<and> gameState s = Playing
           \<and> occupiedAt (grid s) r c)
       \<or> (gameState s = Playing \<and> occupiedAt (grid s) r c
           \<and> currentSum (grid s) (toggle (selected s) r c) = Inr (target s))"
proof (cases "gameState s = Playing \<and> occupiedAt (grid s) r c")
  case False
  with assms show ?thesis
    by (auto simp: handleBlockClick_def occupiedAt_def split: sum.splits option.splits if_splits)
next
  case True
  then have p: "gameState s = Playing" and o: "occupiedAt (grid s) r c" by simp_all
  show ?thesis
  proof (cases "currentSum (grid s) (toggle (selected s) r c)")
    case (Inl e)
    from o obtain b where "cellAt (grid s) r c = Inr (Some b)"
      by (auto simp: occupiedAt_iff)
    with assms p Inl show ?thesis by (simp add: handleBlockClick_def Let_def)
  next
    case (Inr n)
    consider "n = target s" | "target s < n" | "n < target s" by linarith
    then show ?thesis
    proof cases
      case 1
      with p o Inr show ?thesis by simp
    next
      case 2
      from overshoot_outcome [OF p o Inr 2, of R] assms show ?thesis by simp
    next
      case 3
      from pending_outcome [OF p o Inr 3, of R] assms p o show ?thesis by simp
    qed
  qed
qed

text \<open>
  C2. For every click on an occupied cell while the phase is \<open>playing\<close>, if the sum of the
  toggled selection equals the target, the handler returns a state in which the score has
  grown by 10 times the size of the toggled selection, the selection is empty, the target is
  a new draw of \<open>generateTarget\<close>, and the board has the same rows and columns as before,
  with \<open>null\<close> at exactly the selected coordinates and every other cell as it was.
\<close>

theorem click_match:
  assumes "gameState s = Playing" "occupiedAt (grid s) r c"
    and "currentSum (grid s) (toggle (selected s) r c) = Inr (target s)"
  shows "\<exists>s'. handleBlockClick R r c s = Inr s'
           \<and> score s' = score s + 10 * int (length (toggle (selected s) r c))
           \<and> selected s' = []
           \<and> target s' = fst (generateTarget R (drawn s))
           \<and> length (grid s') = length (grid s)
           \<and> (\<forall>ri < length (grid s).
                 length (grid s' ! ri) = length (grid s ! ri)
                 \<and> (\<forall>ci < length (grid s ! ri).
                       grid s' ! ri ! ci =
                         (if (ri, ci) \<in> set (toggle (selected s) r c) then None
                          else grid s ! ri ! ci)))"
proof -
  from match_outcome [OF assms, of R] obtain s' where
    s': "handleBlockClick R r c s = Inr s'"
      "score s' = score s + 10 * int (length (toggle (selected s) r c))"
      "grid s' = removeBlocks (grid s) (toggle (selected s) r c)"
      "selected s' = []" "target s' = fst (generateTarget R (drawn s))"
    by blast
  have "length (grid s') = length (grid s)"
    by (simp add: s'(3) removeBlocks_length)
  moreover have "\<forall>ri < length (grid s).
        length (grid s' ! ri) = length (grid s ! ri)
        \<and> (\<forall>ci < length (grid s ! ri).
              grid s' ! ri ! ci =
                (if (ri, ci) \<in> set (toggle (selected s) r c) then None else grid s ! ri ! ci))"
    by (simp add: s'(3) removeBlocks_row_length removeBlocks_nth)
  ultimately show ?thesis using s'(1,2,4,5) by blast
qed

theorem click_match_witness:
  "gameState (scenario Classic 10 [(9, 0)]) = Playing
   \<and> occupiedAt (grid (scenario Classic 10 [(9, 0)])) 9 1
   \<and> currentSum (grid (scenario Classic 10 [(9, 0)])) (toggle (selected (scenario Classic 10 [(9, 0)])) 9 1)
       = Inr (target (scenario Classic 10 [(9, 0)]))
   \<and> (\<exists>s'. handleBlockClick halves 9 1 (scenario Classic 10 [(9, 0)]) = Inr s'
          \<and> score s' = 20 \<and> selected s' = [] \<and> target s' = 20
          \<and> grid s' ! 9 ! 0 = None \<and> grid s' ! 9 ! 1 = None \<and> grid s' ! 9 ! 2 = None)"
proof -
  let ?s = "scenario Classic 10 [(9, 0)]"
  have a: "gameState ?s = Playing" by code_simp
  have b: "occupiedAt (grid ?s) 9 1" by code_simp
  have c: "currentSum (grid ?s) (toggle (selected ?s) 9 1) = Inr (target ?s)" by code_simp
  have l: "9 < length (grid ?s)" "0 < length (grid ?s ! 9)" "1 < length (grid ?s ! 9)"
    "2 < length (grid ?s ! 9)"
    by code_simp+
  have v: "score ?s + 10 * int (length (toggle (selected ?s) 9 1)) = 20"
    "fst (generateTarget halves (drawn ?s)) = 20"
    "(if (9, 0) \<in> set (toggle (selected ?s) 9 1) then None else grid ?s ! 9 ! 0) = None"
    "(if (9, 1) \<in> set (toggle (selected ?s) 9 1) then None else grid ?s ! 9 ! 1) = None"
    "(if (9, 2) \<in> set (toggle (selected ?s) 9 1) then None else grid ?s ! 9 ! 2) = None"
    by code_simp+
  from click_match [OF a b c, of halves] obtain s' where
    s': "handleBlockClick halves 9 1 ?s = Inr s'"
      "score s' = score ?s + 10 * int (length (toggle (selected ?s) 9 1))"
      "selected s' = []" "target s' = fst (generateTarget halves (drawn ?s))"
      "\<forall>ri < length (grid ?s).
          length (grid s' ! ri) = length (grid ?s ! ri)
          \<and> (\<forall>ci < length (grid ?s ! ri).
                grid s' ! ri ! ci =
                  (if (ri, ci) \<in> set (toggle (selected ?s) 9 1) then None
                   else grid ?s ! ri ! ci))"
    by blast
  from s'(5) l v(3-5) have "grid s' ! 9 ! 0 = None \<and> grid s' ! 9 ! 1 = None \<and> grid s' ! 9 ! 2 = None"
    by metis
  with a b c s'(1-4) v(1,2) show ?thesis by metis
qed

text \<open>
  C6. For every click on an occupied cell while the phase is \<open>playing\<close>, if the sum of the
  toggled selection exceeds the target, the handler returns the state it was given with
  the selection emptied: score and board are unchanged.
\<close>

theorem click_overshoot:
  assumes "gameState s = Playing" "occupiedAt (grid s) r c"
    and "currentSum (grid s) (toggle (selected s) r c) = Inr n" "target s < n"
  shows "\<exists>s'. handleBlockClick R r c s = Inr s' \<and> s' = s\<lparr>selected := []\<rparr>
           \<and> selected s' = [] \<and> score s' = score s \<and> grid s' = grid s"
  using overshoot_outcome [OF assms, of R] by simp

theorem click_overshoot_witness:
  "gameState (scenario Classic 9 [(9, 0)]) = Playing
   \<and> occupiedAt (grid (scenario Classic 9 [(9, 0)])) 9 1
   \<and> currentSum (grid (scenario Classic 9 [(9, 0)])) (toggle (selected (scenario Classic 9 [(9, 0)])) 9 1)
       = Inr 10
   \<and> target (scenario Classic 9 [(9, 0)]) < 10
   \<and> (\<exists>s'. handleBlockClick halves 9 1 (scenario Classic 9 [(9, 0)]) = Inr s'
          \<and> selected s' = [] \<and> score s' = 0 \<and> grid s' = scenarioBoard)"
proof -
  let ?s = "scenario Classic 9 [(9, 0)]"
  have a: "gameState ?s = Playing" by code_simp
  have b: "occupiedAt (grid ?s) 9 1" by code_simp
  have c: "currentSum (grid ?s) (toggle (selected ?s) 9 1) = Inr 10" by code_simp
  have d: "target ?s < 10" by code_simp
  have v: "score ?s = 0" "grid ?s = scenarioBoard" by (simp_all add: scenario_def)
  from click_overshoot [OF a b c d, of halves] v
  have "\<exists>s'. handleBlockClick halves 9 1 ?s = Inr s'
          \<and> selected s' = [] \<and> score s' = 0 \<and> grid s' = scenarioBoard"
    by metis
  with a b c d show ?thesis by blast
qed

section \<open>What every handler returns\<close>

lemma addRow_cases:
  assumes "addRow R m s = Inr s'"
  shows "grid s \<noteq> [] \<and> selected s' = selected s \<and> score s' = score s
       \<and> highScore s' = highScore s \<and> timeouts s' = timeouts s \<and> mode s' = mode s
       \<and> timeLeft s' = (if m = Time then 10 else timeLeft s)
       \<and> (gameState s' = Gameover \<and> grid s' = grid s
          \<or> gameState s' = gameState s
            \<and> grid s' = tl (grid s) @ [fst (generateRow R (drawn s))])"
proof (cases "grid s = []")
  case True
  with assms show ?thesis by (simp add: addRow_empty)
next
  case False
  show ?thesis
  proof (cases "\<exists>cell \<in> set (hd (grid s)). cell \<noteq> None")
    case True
    from addRow_over [OF False True, of R m] assms False show ?thesis by auto
  next
    case top: False
    from addRow_shift [OF False top, of R m] assms False show ?thesis by auto
  qed
qed

lemma tick_cases:
  assumes "tick R s = Inr s'"
  shows "s' = s
       \<or> (1 < timeLeft s \<and> s' = s\<lparr>timeLeft := timeLeft s - 1\<rparr>)
       \<or> (gameState s = Playing \<and> mode s = Time \<and> timeLeft s \<le> 1
           \<and> (\<exists>s1. addRow R Time s = Inr s1 \<and> s' = s1\<lparr>timeLeft := 10\<rparr>))"
  using assms
  by (auto simp: tick_def TIME_MODE_SECONDS_def split: if_splits sum.splits)

lemma fireTimeout_cases:
  assumes "fireTimeout R s = Inr s'"
  shows "s' = s \<and> timeouts s = []
       \<or> (\<exists>m rest. timeouts s = m # rest \<and> addRow R m (s\<lparr>timeouts := rest\<rparr>) = Inr s')"
  using assms by (auto simp: fireTimeout_def split: list.splits)

section \<open>The shape of the state\<close>

lemma boardShaped_row: "boardShaped g \<Longrightarrow> r < length g \<Longrightarrow> length (g ! r) = GRID_COLS"
  by (simp add: boardShaped_def list_all_length)

lemma onBoard_shaped:
  "boardShaped g \<Longrightarrow> onBoard g p \<longleftrightarrow> fst p < GRID_ROWS \<and> snd p < GRID_COLS"
proof -
  assume sh: "boardShaped g"
  then have len: "length g = GRID_ROWS" by (simp add: boardShaped_def)
  show ?thesis
    using boardShaped_row [OF sh, of "fst p"] len by (auto simp: onBoard_def)
qed

lemma selection_onBoard_transfer:
  assumes "boardShaped g" "boardShaped g'" "list_all (onBoard g) sel"
  shows "list_all (onBoard g') sel"
  using assms by (simp add: list_all_iff onBoard_shaped)

lemma fillRows_shape:
  "length (fst (fillRows R n i)) = n
   \<and> list_all (\<lambda>row. length row = GRID_COLS) (fst (fillRows R n i))"
  by (induction n arbitrary: i)
    (simp_all add: Let_def case_prod_beta generateRow_length)

lemma startGame_boardShaped: "boardShaped (grid (startGame R m s))"
  using fillRows_shape [of R INITIAL_ROWS "drawn s"]
  by (simp add: startGame_def Let_def case_prod_beta boardShaped_def
      GRID_ROWS_def INITIAL_ROWS_def list_all_iff)

lemma startGame_wellFormed: "wellFormed (startGame R m s)"
proof -
  have "selected (startGame R m s) = []"
    by (simp add: startGame_def Let_def case_prod_beta)
  with startGame_boardShaped [of R m s] show ?thesis by (simp add: wellFormed_def)
qed

lemma shift_boardShaped:
  assumes "boardShaped g"
  shows "boardShaped (tl g @ [fst (generateRow R i)])"
proof -
  from assms have "g \<noteq> []" by (auto simp: boardShaped_def GRID_ROWS_def)
  then obtain row rest where g: "g = row # rest" by (cases g) auto
  with assms show ?thesis by (simp add: boardShaped_def generateRow_length)
qed

lemma removeBlocks_boardShaped:
  assumes "boardShaped g"
  shows "boardShaped (removeBlocks g sel)"
  using assms
  by (simp add: boardShaped_def list_all_length removeBlocks_length removeBlocks_row_length)

lemma wellFormed_shaped:
  "wellFormed s \<Longrightarrow> grid s \<noteq> [] \<Longrightarrow> boardShaped (grid s)"
  by (auto simp: wellFormed_def)

lemma wellFormed_cong:
  assumes "wellFormed s" "boardShaped (grid s)" "boardShaped (grid s')"
    and "selected s' = selected s"
  shows "wellFormed s'"
  using assms selection_onBoard_transfer [of "grid s" "grid s'" "selected s"]
  by (simp add: wellFormed_def)

lemma addRow_wellFormed:
  assumes "wellFormed s" "addRow R m s = Inr s'"
  shows "wellFormed s'"
proof -
  from addRow_cases [OF assms(2)] have ne: "grid s \<noteq> []" and sel: "selected s' = selected s"
    and g: "grid s' = grid s \<or> grid s' = tl (grid s) @ [fst (generateRow R (drawn s))]"
    by auto
  from wellFormed_shaped [OF assms(1) ne] have sh: "boardShaped (grid s)" .
  from g sh shift_boardShaped [OF sh, of R "drawn s"] have "boardShaped (grid s')" by auto
  from wellFormed_cong [OF assms(1) sh this sel] show ?thesis .
qed

lemma click_wellFormed:
  assumes "wellFormed s" "handleBlockClick R r c s = Inr s'"
  shows "wellFormed s'"
proof -
  from click_cases [OF assms(2)] consider
    (same) "s' = s" | (cleared) "s' = s\<lparr>selected := []\<rparr>"
    | (pending) "s' = s\<lparr>selected := toggle (selected s) r c\<rparr>" "occupiedAt (grid s) r c"
    | (match) "gameState s = Playing" "occupiedAt (grid s) r c"
        "currentSum (grid s) (toggle (selected s) r c) = Inr (target s)"
    by blast
  then show ?thesis
  proof cases
    case same
    with assms(1) show ?thesis by simp
  next
    case cleared
    with assms(1) show ?thesis by (simp add: wellFormed_def)
  next
    case pending
    from pending(2) have "onBoard (grid s) (r, c)"
      by (simp add: occupiedAt_nth onBoard_def)
    with assms(1) have "list_all (onBoard (grid s)) (toggle (selected s) r c)"
      by (auto simp: wellFormed_def list_all_iff toggle_set split: if_splits)
    with assms(1) pending(1) show ?thesis
      by (simp add: wellFormed_def toggle_distinct)
  next
    case match
    from match(2) have ne: "grid s \<noteq> []" by (auto simp: occupiedAt_nth)
    from wellFormed_shaped [OF assms(1) ne] have sh: "boardShaped (grid s)" .
    from match_outcome [OF match, of R] assms(2)
    have "grid s' = removeBlocks (grid s) (toggle (selected s) r c)" "selected s' = []"
      by auto
    with removeBlocks_boardShaped [OF sh] show ?thesis by (simp add: wellFormed_def)
  qed
qed

lemma tick_wellFormed:
  assumes "wellFormed s" "tick R s = Inr s'"
  shows "wellFormed s'"
proof -
  from tick_cases [OF assms(2)] consider
    "s' = s" | "s' = s\<lparr>timeLeft := timeLeft s - 1\<rparr>"
    | s1 where "addRow R Time s = Inr s1" "s' = s1\<lparr>timeLeft := 10\<rparr>"
    by blast
  then show ?thesis
  proof cases
    case 1
    with assms(1) show ?thesis by simp
  next
    case 2
    with assms(1) show ?thesis by (simp add: wellFormed_def)
  next
    case 3
    from addRow_wellFormed [OF assms(1) 3(1)] 3(2) show ?thesis
      by (simp add: wellFormed_def)
  qed
qed

lemma fireTimeout_wellFormed:
  assumes "wellFormed s" "fireTimeout R s = Inr s'"
  shows "wellFormed s'"
proof -
  from fireTimeout_cases [OF assms(2)] consider
    "s' = s" | m rest where "timeouts s = m # rest" "addRow R m (s\<lparr>timeouts := rest\<rparr>) = Inr s'"
    by blast
  then show ?thesis
  proof cases
    case 1
    with assms(1) show ?thesis by simp
  next
    case 2
    from assms(1) 2(1) have "wellFormed (s\<lparr>timeouts := rest\<rparr>)"
      by (auto simp: wellFormed_def)
    from addRow_wellFormed [OF this 2(2)] show ?thesis .
  qed
qed

lemma highScoreEffect_wellFormed: "wellFormed s \<Longrightarrow> wellFormed (highScoreEffect s)"
  by (simp add: highScoreEffect_def wellFormed_def)

lemma handle_wellFormed:
  assumes "wellFormed s" "handle R e s = Inr s'"
  shows "wellFormed s'"
proof (cases e)
  case (StartGame m)
  with assms(2) startGame_wellFormed [of R m s] show ?thesis by auto
next
  case (Click r c)
  with assms click_wellFormed show ?thesis by auto
next
  case ClearSelection
  with assms show ?thesis by (auto simp: wellFormed_def)
next
  case ReturnToMenu
  with assms show ?thesis by (auto simp: wellFormed_def)
next
  case Tick
  with assms tick_wellFormed show ?thesis by auto
next
  case Timeout
  with assms fireTimeout_wellFormed show ?thesis by auto
qed

lemma dispatch_Inr:
  "dispatch R e s = Inr s' \<longleftrightarrow> (\<exists>s1. handle R e s = Inr s1 \<and> s' = highScoreEffect s1)"
  by (auto simp: dispatch_def split: sum.splits)

lemma dispatch_wellFormed:
  assumes "wellFormed s" "dispatch R e s = Inr s'"
  shows "wellFormed s'"
  using assms handle_wellFormed highScoreEffect_wellFormed by (auto simp: dispatch_Inr)

lemma reachable_wellFormed: "reachable R s \<Longrightarrow> wellFormed s"
proof (induction rule: reachable.induct)
  case reachable_init
  show ?case by (simp add: wellFormed_def initialState_def)
next
  case (reachable_step s e s')
  then show ?case using dispatch_wellFormed by blast
qed

lemma run_reachable: "reachable R s \<Longrightarrow> run R es s = Inr s' \<Longrightarrow> reachable R s'"
proof (induction es arbitrary: s)
  case Nil
  then show ?case by simp
next
  case (Cons e es)
  from Cons.prems(2) obtain s1 where s1: "dispatch R e s = Inr s1" "run R es s1 = Inr s'"
    by (auto split: sum.splits)
  from Cons.prems(1) s1(1) have "reachable R s1" by (rule reachable_step)
  with Cons.IH s1(2) show ?case by blast
qed

lemma run_initial_reachable: "run R es initialState = Inr s \<Longrightarrow> reachable R s"
  using run_reachable [OF reachable_init] .

lemma run_observe:
  "case_sum (\<lambda>e. False) P (run R es s) \<Longrightarrow> \<exists>s'. run R es s = Inr s' \<and> P s'"
  by (cases "run R es s") simp_all

section \<open>The timer\<close>

lemma startGame_fields:
  "gameState (startGame R m s) = Playing \<and> selected (startGame R m s) = []
   \<and> score (startGame R m s) = 0 \<and> timeLeft (startGame R m s) = 10
   \<and> highScore (startGame R m s) = highScore s \<and> timeouts (startGame R m s) = timeouts s
   \<and> mode (startGame R m s) = m"
  by (simp add: startGame_def Let_def case_prod_beta TIME_MODE_SECONDS_def)

lemma handle_timeLeft:
  assumes "handle R e s = Inr s'" "0 < timeLeft s \<and> timeLeft s \<le> 10"
  shows "0 < timeLeft s' \<and> timeLeft s' \<le> 10"
proof (cases e)
  case (StartGame m)
  with assms(1) startGame_fields [of R m s] show ?thesis by auto
next
  case (Click r c)
  with assms(1) have h: "handleBlockClick R r c s = Inr s'" by simp
  from click_cases [OF h] consider
    "s' = s" | "s' = s\<lparr>selected := []\<rparr>" | "s' = s\<lparr>selected := toggle (selected s) r c\<rparr>"
    | "gameState s = Playing" "occupiedAt (grid s) r c"
      "currentSum (grid s) (toggle (selected s) r c) = Inr (target s)"
    by blast
  then show ?thesis
  proof cases
    case 4
    from match_outcome [OF 4, of R] h
    have "timeLeft s' = (if mode s = Classic then timeLeft s else 10)" by auto
    with assms(2) show ?thesis by simp
  qed (use assms(2) in simp_all)
next
  case ClearSelection
  with assms show ?thesis by auto
next
  case ReturnToMenu
  with assms show ?thesis by auto
next
  case Tick
  with assms(1) have "tick R s = Inr s'" by simp
  from tick_cases [OF this] assms(2) show ?thesis by auto
next
  case Timeout
  with assms(1) have "fireTimeout R s = Inr s'" by simp
  from fireTimeout_cases [OF this] consider
    "s' = s" | m rest where "addRow R m (s\<lparr>timeouts := rest\<rparr>) = Inr s'"
    by blast
  then show ?thesis
  proof cases
    case 1
    with assms(2) show ?thesis by simp
  next
    case 2
    from addRow_cases [OF 2] assms(2) show ?thesis by auto
  qed
qed

lemma highScoreEffect_fields:
  "gameState (highScoreEffect s) = gameState s \<and> grid (highScoreEffect s) = grid s
   \<and> selected (highScoreEffect s) = selected s \<and> score (highScoreEffect s) = score s
   \<and> timeLeft (highScoreEffect s) = timeLeft s \<and> mode (highScoreEffect s) = mode s
   \<and> timeouts (highScoreEffect s) = timeouts s
   \<and> highScore (highScoreEffect s) = max (highScore s) (score s)"
  by (simp add: highScoreEffect_def)

lemma reachable_timeLeft: "reachable R s \<Longrightarrow> 0 < timeLeft s \<and> timeLeft s \<le> 10"
proof (induction rule: reachable.induct)
  case reachable_init
  show ?case by (simp add: initialState_def TIME_MODE_SECONDS_def)
next
  case (reachable_step s e s')
  from reachable_step.hyps(2) obtain s1 where
    s1: "handle R e s = Inr s1" "s' = highScoreEffect s1"
    by (auto simp: dispatch_Inr)
  from handle_timeLeft [OF s1(1) reachable_step.IH] s1(2) show ?case
    by (simp add: highScoreEffect_fields)
qed

lemma addRow_returns: "grid s \<noteq> [] \<Longrightarrow> \<exists>s'. addRow R m s = Inr s'"
  using addRow_over [of s R m] addRow_shift [of s R m] by blast

lemma playing_has_board: "wellFormed s \<Longrightarrow> gameState s = Playing \<Longrightarrow> grid s \<noteq> []"
  by (auto simp: wellFormed_def boardShaped_def GRID_ROWS_def)

text \<open>
  C7. In every reachable state in timed mode with the phase \<open>playing\<close>, the time left is
  positive, and a tick returns a state whose time left is positive again: when more than
  one second is left the tick only decrements the time left by 1; otherwise the tick is
  the row advance \<open>addRow\<close> together with the time left set back to 10, in one transition.
\<close>

theorem tick_contract:
  assumes "reachable R s" "gameState s = Playing" "mode s = Time"
  shows "0 < timeLeft s
       \<and> (\<exists>s'. tick R s = Inr s' \<and> 0 < timeLeft s'
              \<and> (if 1 < timeLeft s then s' = s\<lparr>timeLeft := timeLeft s - 1\<rparr>
                  else \<exists>s1. addRow R Time s = Inr s1 \<and> s' = s1\<lparr>timeLeft := 10\<rparr>))"
proof -
  from reachable_timeLeft [OF assms(1)] have pos: "0 < timeLeft s" by simp
  show ?thesis
  proof (cases "1 < timeLeft s")
    case True
    with assms(2,3) have "tick R s = Inr (s\<lparr>timeLeft := timeLeft s - 1\<rparr>)"
      by (simp add: tick_def)
    with True pos show ?thesis by simp
  next
    case False
    from playing_has_board [OF reachable_wellFormed [OF assms(1)] assms(2)]
    obtain s1 where s1: "addRow R Time s = Inr s1"
      using addRow_returns by blast
    with False assms(2,3) have "tick R s = Inr (s1\<lparr>timeLeft := 10\<rparr>)"
      by (simp add: tick_def TIME_MODE_SECONDS_def)
    with False pos s1 show ?thesis by simp
  qed
qed

theorem tick_contract_witness:
  "\<exists>s s' s1. run halves (StartGame Time # replicate 9 Tick) initialState = Inr s
      \<and> reachable halves s \<and> gameState s = Playing \<and> mode s = Time \<and> timeLeft s = 1
      \<and> tick halves s = Inr s' \<and> timeLeft s' = 10
      \<and> addRow halves Time s = Inr s1 \<and> s' = s1\<lparr>timeLeft := 10\<rparr>"
proof -
  have "case_sum (\<lambda>e. False) (\<lambda>s. gameState s = Playing \<and> mode s = Time \<and> timeLeft s = 1)
          (run halves (StartGame Time # replicate 9 Tick) initialState)"
    by code_simp
  from run_observe [OF this] obtain s where
    s: "run halves (StartGame Time # replicate 9 Tick) initialState = Inr s"
      "gameState s = Playing" "mode s = Time" "timeLeft s = 1"
    by blast
  from run_initial_reachable [OF s(1)] have r: "reachable halves s" .
  from tick_contract [OF r s(2,3)] s(4) obtain s' s1 where
    "tick halves s = Inr s'" "addRow halves Time s = Inr s1" "s' = s1\<lparr>timeLeft := 10\<rparr>"
    by auto
  moreover from this have "timeLeft s' = 10" by simp
  ultimately show ?thesis using s r by blast
qed

section \<open>The best score\<close>

lemma handle_highScore:
  assumes "handle R e s = Inr s'"
  shows "highScore s' = highScore s"
proof (cases e)
  case (StartGame m)
  with assms startGame_fields [of R m s] show ?thesis by auto
next
  case (Click r c)
  with assms have h: "handleBlockClick R r c s = Inr s'" by simp
  from click_cases [OF h] consider
    "s' = s" | "s' = s\<lparr>selected := []\<rparr>" | "s' = s\<lparr>selected := toggle (selected s) r c\<rparr>"
    | "gameState s = Playing" "occupiedAt (grid s) r c"
      "currentSum (grid s) (toggle (selected s) r c) = Inr (target s)"
    by blast
  then show ?thesis
  proof cases
    case 4
    from match_outcome [OF 4, of R] h show ?thesis by auto
  qed simp_all
next
  case ClearSelection
  with assms show ?thesis by auto
next
  case ReturnToMenu
  with assms show ?thesis by auto
next
  case Tick
  with assms have "tick R s = Inr s'" by simp
  from tick_cases [OF this] consider
    "s' = s" | "s' = s\<lparr>timeLeft := timeLeft s - 1\<rparr>"
    | s1 where "addRow R Time s = Inr s1" "s' = s1\<lparr>timeLeft := 10\<rparr>"
    by blast
  then show ?thesis
  proof cases
    case 3
    from addRow_cases [OF 3(1)] 3(2) show ?thesis by simp
  qed simp_all
next
  case Timeout
  with assms have "fireTimeout R s = Inr s'" by simp
  from fireTimeout_cases [OF this] consider
    "s' = s" | m rest where "addRow R m (s\<lparr>timeouts := rest\<rparr>) = Inr s'"
    by blast
  then show ?thesis
  proof cases
    case 2
    from addRow_cases [OF 2] show ?thesis by simp
  qed simp_all
qed

lemma dispatch_highScore:
  assumes "dispatch R e s = Inr s'"
  shows "highScore s' = max (highScore s) (score s')"
proof -
  from assms obtain s1 where s1: "handle R e s = Inr s1" "s' = highScoreEffect s1"
    by (auto simp: dispatch_Inr)
  from handle_highScore [OF s1(1)] s1(2) show ?thesis
    by (simp add: highScoreEffect_fields)
qed

lemma history_nonempty: "history R es s \<noteq> []"
  by (cases es) simp_all

lemma history_last_highScore:
  assumes "score s \<le> highScore s"
  shows "highScore (last (history R es s))
           = max (highScore s) (Max (set (map score (history R es s))))"
  using assms
proof (induction es arbitrary: s)
  case Nil
  then show ?case by simp
next
  case (Cons e es)
  show ?case
  proof (cases "dispatch R e s")
    case (Inl err)
    with Cons.prems show ?thesis by simp
  next
    case (Inr s')
    let ?H = "set (map score (history R es s'))"
    have fin: "finite ?H" and ne: "?H \<noteq> {}" using history_nonempty [of R es s'] by simp_all
    have mem: "score s' \<in> ?H" by (cases es) simp_all
    then have ge: "score s' \<le> Max ?H" using fin by simp
    from dispatch_highScore [OF Inr] have hs: "highScore s' = max (highScore s) (score s')" .
    then have "score s' \<le> highScore s'" by simp
    from Cons.IH [OF this]
    have "highScore (last (history R es s')) = max (highScore s') (Max ?H)" .
    also have "\<dots> = max (highScore s) (Max ?H)" using hs ge by simp
    also have "\<dots> = max (highScore s) (Max (insert (score s) ?H))"
      using Cons.prems fin ne by simp
    finally show ?thesis using Inr history_nonempty [of R es s'] by simp
  qed
qed

lemma history_highScore_mono:
  "sorted (map highScore (history R es s))
   \<and> (\<forall>t \<in> set (history R es s). highScore s \<le> highScore t)"
proof (induction es arbitrary: s)
  case Nil
  show ?case by simp
next
  case (Cons e es)
  show ?case
  proof (cases "dispatch R e s")
    case (Inl err)
    then show ?thesis by simp
  next
    case (Inr s')
    from dispatch_highScore [OF Inr] have "highScore s \<le> highScore s'" by simp
    with Cons.IH [of s'] Inr show ?thesis by fastforce
  qed
qed

lemma history_score_below:
  assumes "score s \<le> highScore s"
  shows "list_all (\<lambda>t. score t \<le> highScore t) (history R es s)"
  using assms
proof (induction es arbitrary: s)
  case Nil
  then show ?case by simp
next
  case (Cons e es)
  show ?case
  proof (cases "dispatch R e s")
    case (Inl err)
    with Cons.prems show ?thesis by simp
  next
    case (Inr s')
    from dispatch_highScore [OF Inr] have "score s' \<le> highScore s'" by simp
    from Cons.IH [OF this] Cons.prems Inr show ?thesis by simp
  qed
qed

text \<open>
  C9. Along every sequence of intents from the initial render (starting rounds, clicks,
  ticks, timeouts, returning to the menu, rounds that are lost), the best score of the
  state reached is the maximum of the scores of all states passed through, the best
  score never decreases from one state to the next, and in every state passed through
  the best score equals the maximum of itself and the score.
\<close>

theorem highScore_running_maximum:
  "highScore (last (history R es initialState))
     = Max (set (map score (history R es initialState)))
   \<and> sorted (map highScore (history R es initialState))
   \<and> list_all (\<lambda>s. highScore s = max (highScore s) (score s)) (history R es initialState)"
proof -
  let ?H = "set (map score (history R es initialState))"
  have z: "score initialState \<le> highScore initialState" "highScore initialState = 0"
    "score initialState = 0"
    by (simp_all add: initialState_def)
  have "score initialState \<in> ?H" by (cases es) simp_all
  then have "0 \<le> Max ?H" using z(3) by simp
  with history_last_highScore [OF z(1), of R es] z(2)
  have 1: "highScore (last (history R es initialState)) = Max ?H" by simp
  have 2: "sorted (map highScore (history R es initialState))"
    using history_highScore_mono by blast
  have 3: "list_all (\<lambda>s. highScore s = max (highScore s) (score s)) (history R es initialState)"
    using history_score_below [OF z(1), of R es] by (fastforce simp: list_all_iff max_def)
  from 1 2 3 show ?thesis by blast
qed

theorem highScore_running_maximum_witness:
  "map score (history halves
       [StartGame Classic, Click 9 0, Click 9 1, Click 9 2, Click 9 3, Timeout, ReturnToMenu,
        StartGame Time] initialState) = [0, 0, 0, 0, 0, 40, 40, 40, 0]
   \<and> map highScore (history halves
       [StartGame Classic, Click 9 0, Click 9 1, Click 9 2, Click 9 3, Timeout, ReturnToMenu,
        StartGame Time] initialState) = [0, 0, 0, 0, 0, 40, 40, 40, 40]
   \<and> highScore (last (history halves
       [StartGame Classic, Click 9 0, Click 9 1, Click 9 2, Click 9 3, Timeout, ReturnToMenu,
        StartGame Time] initialState)) = 40"
proof -
  let ?h = "history halves
       [StartGame Classic, Click 9 0, Click 9 1, Click 9 2, Click 9 3, Timeout, ReturnToMenu,
        StartGame Time] initialState"
  have a: "map score ?h = [0, 0, 0, 0, 0, 40, 40, 40, 0]" by code_simp
  have b: "map highScore ?h = [0, 0, 0, 0, 0, 40, 40, 40, 40]" by code_simp
  have "highScore (last ?h) = Max (set (map score ?h))"
    using highScore_running_maximum [of halves] by blast
  also have "\<dots> = 40" unfolding a by simp
  finally show ?thesis using a b by blast
qed

section \<open>The sum of the selection\<close>

lemma valueOrZero_eq: "valueOrZero cell = (case cell of None \<Rightarrow> 0 | Some b \<Rightarrow> blockValue b)"
  by (simp add: valueOrZero_def split: option.splits)

lemma reduceSum_onBoard:
  assumes "list_all (onBoard g) sel"
  shows "reduceSum g acc sel
           = Inr (acc + (\<Sum>p\<leftarrow>sel. case g ! fst p ! snd p of None \<Rightarrow> 0 | Some b \<Rightarrow> blockValue b))"
  using assms
proof (induction sel arbitrary: acc)
  case Nil
  show ?case by simp
next
  case (Cons p sel)
  obtain r c where p: "p = (r, c)" by (cases p)
  from Cons.prems have rest: "list_all (onBoard g) sel" by simp
  from Cons.prems p have "cellAt g r c = Inr (g ! r ! c)"
    by (simp add: onBoard_def cellAt_def)
  with Cons.IH [OF rest] p show ?case by (simp add: valueOrZero_eq)
qed

lemma toggle_onBoard:
  assumes "list_all (onBoard g) sel" "occupiedAt g r c"
  shows "list_all (onBoard g) (toggle sel r c)"
proof -
  from assms(2) have "onBoard g (r, c)" by (simp add: occupiedAt_nth onBoard_def)
  with assms(1) show ?thesis
    by (auto simp: list_all_iff toggle_set split: if_splits)
qed

lemma click_returns:
  assumes "list_all (onBoard (grid s)) (selected s)" "r < length (grid s)"
  shows "\<exists>s'. handleBlockClick R r c s = Inr s'"
proof (cases "gameState s = Playing \<and> occupiedAt (grid s) r c")
  case False
  with assms(2) show ?thesis
    by (auto simp: handleBlockClick_def occupiedAt_def cellAt_def split: option.splits)
next
  case True
  then have p: "gameState s = Playing" and o: "occupiedAt (grid s) r c" by simp_all
  from reduceSum_onBoard [OF toggle_onBoard [OF assms(1) o]]
  obtain n where n: "currentSum (grid s) (toggle (selected s) r c) = Inr n"
    by (simp add: currentSum_def)
  consider "n = target s" | "target s < n" | "n < target s" by linarith
  then show ?thesis
  proof cases
    case 1
    with match_outcome [OF p o, of R] n show ?thesis by blast
  next
    case 2
    from overshoot_outcome [OF p o n 2] show ?thesis by blast
  next
    case 3
    from pending_outcome [OF p o n 3] show ?thesis by blast
  qed
qed

text \<open>
  C10. In every reachable state the sum of the selection, as the render computes it,
  is a number and no exception: the sum over the selected coordinates of the value of the
  block there, an empty cell counting 0. The same holds of the sum a click computes: a
  click on any coordinate of the grid returns.
\<close>

theorem currentSum_total:
  assumes "reachable R s"
  shows "currentSum (grid s) (selected s)
           = Inr (\<Sum>p\<leftarrow>selected s.
                    case grid s ! fst p ! snd p of None \<Rightarrow> 0 | Some b \<Rightarrow> blockValue b)
       \<and> (\<forall>r c. r < length (grid s) \<longrightarrow> (\<exists>s'. handleBlockClick R r c s = Inr s'))"
proof -
  from reachable_wellFormed [OF assms] have on: "list_all (onBoard (grid s)) (selected s)"
    by (simp add: wellFormed_def)
  from reduceSum_onBoard [OF on, of 0] click_returns [OF on] show ?thesis
    by (simp add: currentSum_def)
qed

theorem currentSum_total_witness:
  "\<exists>s s'. run halves ([StartGame Time, Click 9 0, Click 9 1, Click 9 2, Click 9 3,
                        Click 8 0, Click 8 1] @ replicate 10 Tick) initialState = Inr s
      \<and> reachable halves s
      \<and> selected s = [(8, 0), (8, 1)] \<and> grid s ! 8 ! 0 = None \<and> grid s ! 8 ! 1 = None
      \<and> currentSum (grid s) (selected s) = Inr 0
      \<and> 8 < length (grid s) \<and> handleBlockClick halves 8 4 s = Inr s'"
proof -
  let ?tr = "[StartGame Time, Click 9 0, Click 9 1, Click 9 2, Click 9 3,
              Click 8 0, Click 8 1] @ replicate 10 Tick"
  have "case_sum (\<lambda>e. False)
          (\<lambda>s. selected s = [(8, 0), (8, 1)] \<and> grid s ! 8 ! 0 = None \<and> grid s ! 8 ! 1 = None
                \<and> 8 < length (grid s))
          (run halves ?tr initialState)"
    by code_simp
  from run_observe [OF this] obtain s where
    s: "run halves ?tr initialState = Inr s" "selected s = [(8, 0), (8, 1)]"
      "grid s ! 8 ! 0 = None" "grid s ! 8 ! 1 = None" "8 < length (grid s)"
    by blast
  from run_initial_reachable [OF s(1)] have r: "reachable halves s" .
  from currentSum_total [OF r] s(5) obtain s' where
    t: "currentSum (grid s) (selected s)
          = Inr (\<Sum>p\<leftarrow>selected s.
                   case grid s ! fst p ! snd p of None \<Rightarrow> 0 | Some b \<Rightarrow> blockValue b)"
      "handleBlockClick halves 8 4 s = Inr s'"
    by blast
  from t(1) s(2-4) have "currentSum (grid s) (selected s) = Inr 0" by simp
  with s r t(2) show ?thesis by blast
qed

section \<open>The selection and the board\<close>

text \<open>
  C5 at a concrete run. In timed mode a match empties four cells of row 9, the player
  selects the two blocks above the first two gaps, and the timer runs out. Up to the
  ninth tick every selected coordinate refers to an occupied cell. The tenth tick is the
  row advance: the phase is still \<open>playing\<close>, the selection is the same pair of
  coordinates, and the cells they refer to are now the two gaps, so the selection no
  longer refers to occupied cells. Four more clicks on blocks worth 20 together are then
  a match over six coordinates: 60 points for four blocks.
\<close>

theorem row_advance_strands_selection:
  "map_sum id gameState
     (run halves ([StartGame Time, Click 9 0, Click 9 1, Click 9 2, Click 9 3,
                   Click 8 0, Click 8 1] @ replicate 9 Tick) initialState) = Inr Playing
   \<and> map_sum id selected
     (run halves ([StartGame Time, Click 9 0, Click 9 1, Click 9 2, Click 9 3,
                   Click 8 0, Click 8 1] @ replicate 9 Tick) initialState)
       = Inr [(8, 0), (8, 1)]
   \<and> map_sum id selectionOccupied
     (run halves ([StartGame Time, Click 9 0, Click 9 1, Click 9 2, Click 9 3,
                   Click 8 0, Click 8 1] @ replicate 9 Tick) initialState) = Inr True
   \<and> map_sum id gameState
     (run halves ([StartGame Time, Click 9 0, Click 9 1, Click 9 2, Click 9 3,
                   Click 8 0, Click 8 1] @ replicate 10 Tick) initialState) = Inr Playing
   \<and> map_sum id selected
     (run halves ([StartGame Time, Click 9 0, Click 9 1, Click 9 2, Click 9 3,
                   Click 8 0, Click 8 1] @ replicate 10 Tick) initialState)
       = Inr [(8, 0), (8, 1)]
   \<and> map_sum id (cellOccupied 8 0)
     (run halves ([StartGame Time, Click 9 0, Click 9 1, Click 9 2, Click 9 3,
                   Click 8 0, Click 8 1] @ replicate 10 Tick) initialState) = Inr False
   \<and> map_sum id (cellOccupied 8 1)
     (run halves ([StartGame Time, Click 9 0, Click 9 1, Click 9 2, Click 9 3,
                   Click 8 0, Click 8 1] @ replicate 10 Tick) initialState) = Inr False
   \<and> map_sum id selectionOccupied
     (run halves ([StartGame Time, Click 9 0, Click 9 1, Click 9 2, Click 9 3,
                   Click 8 0, Click 8 1] @ replicate 10 Tick) initialState) = Inr False
   \<and> map_sum id score
     (run halves ([StartGame Time, Click 9 0, Click 9 1, Click 9 2, Click 9 3,
                   Click 8 0, Click 8 1] @ replicate 10 Tick) initialState) = Inr 40
   \<and> map_sum id score
     (run halves ([StartGame Time, Click 9 0, Click 9 1, Click 9 2, Click 9 3,
                   Click 8 0, Click 8 1] @ replicate 10 Tick
                  @ [Click 9 0, Click 9 1, Click 9 2, Click 9 3]) initialState) = Inr 100"
  by code_simp

section \<open>Clicking the same cell twice\<close>

lemma toggle_twice_fresh: "(r, c) \<notin> set sel \<Longrightarrow> toggle (toggle sel r c) r c = sel"
proof -
  assume n: "(r, c) \<notin> set sel"
  then have "filter (\<lambda>p. p \<noteq> (r, c)) sel = sel" by (auto intro: filter_True)
  with n show ?thesis by (simp add: toggle_fresh toggle_member)
qed

lemma toggle_twice_member:
  "(r, c) \<in> set sel \<Longrightarrow> toggle (toggle sel r c) r c = filter (\<lambda>p. p \<noteq> (r, c)) sel @ [(r, c)]"
  by (simp add: toggle_member toggle_fresh)

lemma toggle_twice_set: "set (toggle (toggle sel r c) r c) = set sel"
  by (cases "(r, c) \<in> set sel") (auto simp: toggle_twice_fresh toggle_twice_member)

text \<open>
  C4, as the code has it. For every click on an occupied cell \<open>(r, c)\<close> while the phase
  is \<open>playing\<close>, if the sum stays below the target after the first click and after the
  second, then two clicks in a row on \<open>(r, c)\<close> leave score, board and target alone and
  give back the coordinates that were selected before. When \<open>(r, c)\<close> was not selected
  before, the state is exactly the one before the two clicks; when it was, the selection
  is the prior one with \<open>(r, c)\<close> moved to its end.
\<close>

theorem click_twice_pending:
  assumes "gameState s = Playing" "occupiedAt (grid s) r c"
    and "currentSum (grid s) (toggle (selected s) r c) = Inr n1" "n1 < target s"
    and "currentSum (grid s) (toggle (toggle (selected s) r c) r c) = Inr n2" "n2 < target s"
  shows "\<exists>s1 s2. handleBlockClick R r c s = Inr s1 \<and> handleBlockClick R r c s1 = Inr s2
           \<and> s2 = s\<lparr>selected := selected s2\<rparr>
           \<and> set (selected s2) = set (selected s)
           \<and> ((r, c) \<notin> set (selected s) \<longrightarrow> s2 = s)
           \<and> ((r, c) \<in> set (selected s) \<longrightarrow>
                selected s2 = filter (\<lambda>p. p \<noteq> (r, c)) (selected s) @ [(r, c)])"
proof -
  let ?s1 = "s\<lparr>selected := toggle (selected s) r c\<rparr>"
  let ?s2 = "s\<lparr>selected := toggle (toggle (selected s) r c) r c\<rparr>"
  from pending_outcome [OF assms(1-4)]
  have 1: "handleBlockClick R r c s = Inr ?s1" .
  have "handleBlockClick R r c ?s1 = Inr (?s1\<lparr>selected := toggle (selected ?s1) r c\<rparr>)"
    using assms(1,2,5,6) by (intro pending_outcome [where n = n2]) simp_all
  then have 2: "handleBlockClick R r c ?s1 = Inr ?s2" by simp
  have 3: "set (selected ?s2) = set (selected s)" by (simp add: toggle_twice_set)
  have 4: "(r, c) \<notin> set (selected s) \<longrightarrow> ?s2 = s" by (simp add: toggle_twice_fresh)
  have 5: "(r, c) \<in> set (selected s) \<longrightarrow>
             selected ?s2 = filter (\<lambda>p. p \<noteq> (r, c)) (selected s) @ [(r, c)]"
    by (simp add: toggle_twice_member)
  have 6: "?s2 = s\<lparr>selected := selected ?s2\<rparr>" by simp
  from 1 2 3 4 5 6 show ?thesis by blast
qed

theorem click_twice_pending_witness:
  "gameState (scenario Classic 20 [(9, 0)]) = Playing
   \<and> occupiedAt (grid (scenario Classic 20 [(9, 0)])) 9 1
   \<and> currentSum (grid (scenario Classic 20 [(9, 0)]))
        (toggle (selected (scenario Classic 20 [(9, 0)])) 9 1) = Inr 10
   \<and> 10 < target (scenario Classic 20 [(9, 0)])
   \<and> currentSum (grid (scenario Classic 20 [(9, 0)]))
        (toggle (toggle (selected (scenario Classic 20 [(9, 0)])) 9 1) 9 1) = Inr 4
   \<and> 4 < target (scenario Classic 20 [(9, 0)])
   \<and> (\<exists>s1 s2. handleBlockClick halves 9 1 (scenario Classic 20 [(9, 0)]) = Inr s1
          \<and> handleBlockClick halves 9 1 s1 = Inr s2
          \<and> s2 = scenario Classic 20 [(9, 0)])"
proof -
  let ?s = "scenario Classic 20 [(9, 0)]"
  have a: "gameState ?s = Playing" by code_simp
  have b: "occupiedAt (grid ?s) 9 1" by code_simp
  have c: "currentSum (grid ?s) (toggle (selected ?s) 9 1) = Inr 10" by code_simp
  have d: "10 < target ?s" by code_simp
  have e: "currentSum (grid ?s) (toggle (toggle (selected ?s) 9 1) 9 1) = Inr 4" by code_simp
  have f: "4 < target ?s" by code_simp
  have g: "(9, 1) \<notin> set (selected ?s)" by code_simp
  from click_twice_pending [OF a b c d e f, of halves] g
  have "\<exists>s1 s2. handleBlockClick halves 9 1 ?s = Inr s1
          \<and> handleBlockClick halves 9 1 s1 = Inr s2 \<and> s2 = ?s"
    by blast
  with a b c d e f show ?thesis by blast
qed

theorem click_twice_counterexample:
  "map_sum id gameState
     (run halves [StartGame Classic, Click 9 0, Click 9 1, Click 9 2] initialState)
     = Inr Playing
   \<and> map_sum id selected
     (run halves [StartGame Classic, Click 9 0, Click 9 1, Click 9 2] initialState)
     = Inr [(9, 0), (9, 1), (9, 2)]
   \<and> map_sum id (cellOccupied 9 3)
     (run halves [StartGame Classic, Click 9 0, Click 9 1, Click 9 2] initialState)
     = Inr True
   \<and> map_sum id selected
     (run halves [StartGame Classic, Click 9 0, Click 9 1, Click 9 2, Click 9 3, Click 9 3]
        initialState)
     = Inr []
   \<and> map_sum id (cellOccupied 9 0)
     (run halves [StartGame Classic, Click 9 0, Click 9 1, Click 9 2] initialState)
     = Inr True
   \<and> map_sum id selected
     (run halves [StartGame Classic, Click 9 0, Click 9 1, Click 9 2, Click 9 0, Click 9 0]
        initialState)
     = Inr [(9, 1), (9, 2), (9, 0)]"
  by code_simp

section \<open>The timeout that outlives its round\<close>

text \<open>
  C3 at a concrete run. A match in classic mode schedules the row advance; the player
  returns to the menu and starts a new round before it fires. When it fires, the new
  round, which has just begun with an empty row 5, has a block there: the rows moved up
  by one. Fired after the return to the menu alone, it moves the rows while the phase
  is \<open>menu\<close>.
\<close>

theorem stale_timeout_shifts_board:
  "map_sum id gameState
     (run halves [StartGame Classic, Click 9 0, Click 9 1, Click 9 2, Click 9 3,
                  ReturnToMenu, StartGame Classic] initialState) = Inr Playing
   \<and> map_sum id score
     (run halves [StartGame Classic, Click 9 0, Click 9 1, Click 9 2, Click 9 3,
                  ReturnToMenu, StartGame Classic] initialState) = Inr 0
   \<and> map_sum id timeouts
     (run halves [StartGame Classic, Click 9 0, Click 9 1, Click 9 2, Click 9 3,
                  ReturnToMenu, StartGame Classic] initialState) = Inr [Classic]
   \<and> map_sum id (cellOccupied 5 0)
     (run halves [StartGame Classic, Click 9 0, Click 9 1, Click 9 2, Click 9 3,
                  ReturnToMenu, StartGame Classic] initialState) = Inr False
   \<and> map_sum id (cellOccupied 5 0)
     (run halves [StartGame Classic, Click 9 0, Click 9 1, Click 9 2, Click 9 3,
                  ReturnToMenu, StartGame Classic, Timeout] initialState) = Inr True
   \<and> map_sum id gameState
     (run halves [StartGame Classic, Click 9 0, Click 9 1, Click 9 2, Click 9 3,
                  ReturnToMenu] initialState) = Inr Menu
   \<and> map_sum id (cellOccupied 5 0)
     (run halves [StartGame Classic, Click 9 0, Click 9 1, Click 9 2, Click 9 3,
                  ReturnToMenu] initialState) = Inr False
   \<and> map_sum id gameState
     (run halves [StartGame Classic, Click 9 0, Click 9 1, Click 9 2, Click 9 3,
                  ReturnToMenu, Timeout] initialState) = Inr Menu
   \<and> map_sum id (cellOccupied 5 0)
     (run halves [StartGame Classic, Click 9 0, Click 9 1, Click 9 2, Click 9 3,
                  ReturnToMenu, Timeout] initialState) = Inr True"
  by code_simp

end
